theory Spec2Isabelle
  imports Complex_Main "HOL-Library.Sublist"
begin

section \<open>Video to bounded audio: the transcoder and the batch driver\<close>

text \<open>
  A shallow embedding of \<^verbatim>\<open>src/video_processing.py\<close>: the functions
  \<^verbatim>\<open>ensure_directories\<close>, \<^verbatim>\<open>video_to_audio\<close> and
  \<^verbatim>\<open>process_videos_in_directory\<close>.

  The program's state is the file system, so every function takes a \<open>world\<close> and returns
  the new one. An exception is the left summand of the result; the world reached when it was
  raised is kept beside it. What the program calls but does not contain is modelled as follows.
  \<^item> \<^verbatim>\<open>os\<close> and \<^verbatim>\<open>os.path\<close> follow CPython's \<^verbatim>\<open>posixpath\<close> on a tree
    of regular files and directories. Permissions, quotas, symbolic links and other processes
    are outside the model.
  \<^item> The codecs (\<^verbatim>\<open>moviepy\<close>, \<^verbatim>\<open>pydub\<close>) are a parameter, the record \<open>env\<close>:
    for each call it says whether the call raises and what it leaves on disk.
  \<^item> Python's \<^verbatim>\<open>float\<close> is IEEE 754 binary64; \<open>to_double\<close> rounds a rational to it.
  \<^item> File names are byte strings and \<^verbatim>\<open>str.lower\<close> acts on the letters A to Z.
\<close>

subsection \<open>Strings and paths\<close>

type_synonym path = string

definition startswith :: "string \<Rightarrow> string \<Rightarrow> bool" where
  "startswith s pre = (take (length pre) s = pre)"

definition endswith :: "string \<Rightarrow> string \<Rightarrow> bool" where
  "endswith s suf = (length suf \<le> length s \<and> drop (length s - length suf) s = suf)"

definition lower_char :: "char \<Rightarrow> char" where
  "lower_char c =
     (case map_of (zip ''ABCDEFGHIJKLMNOPQRSTUVWXYZ'' ''abcdefghijklmnopqrstuvwxyz'') c of
        Some d \<Rightarrow> d
      | None \<Rightarrow> c)"

definition lower :: "string \<Rightarrow> string" where
  "lower s = map lower_char s"

text \<open>\<^verbatim>\<open>posixpath.basename\<close>: what follows the last slash.\<close>

definition os_path_basename :: "path \<Rightarrow> string" where
  "os_path_basename p = rev (takeWhile (\<lambda>c. c \<noteq> CHR ''/'') (rev p))"

text \<open>
  \<^verbatim>\<open>posixpath.dirname\<close>: what precedes the last slash, without trailing slashes unless
  it consists of slashes only.
\<close>

definition os_path_dirname :: "path \<Rightarrow> path" where
  "os_path_dirname p =
     (let head = take (length p - length (os_path_basename p)) p
      in if filter (\<lambda>c. c \<noteq> CHR ''/'') head = [] then head
         else rev (dropWhile (\<lambda>c. c = CHR ''/'') (rev head)))"

text \<open>
  \<^verbatim>\<open>posixpath.splitext\<close>: the extension starts at the last dot of the file name, unless
  only dots precede that dot in the file name.
\<close>

definition os_path_splitext :: "path \<Rightarrow> string \<times> string" where
  "os_path_splitext p =
     (let fname = os_path_basename p;
          n = Suc (length (takeWhile (\<lambda>c. c \<noteq> CHR ''.'') (rev fname)));
          stem = take (length fname - n) fname
      in if CHR ''.'' \<in> set fname \<and> filter (\<lambda>c. c \<noteq> CHR ''.'') stem \<noteq> []
         then (take (length p - n) p, drop (length p - n) p)
         else (p, []))"

text \<open>\<^verbatim>\<open>posixpath.join\<close> of two components.\<close>

definition os_path_join :: "path \<Rightarrow> string \<Rightarrow> path" where
  "os_path_join a b =
     (if startswith b ''/'' then b
      else if a = [] \<or> endswith a ''/'' then a @ b
      else a @ ''/'' @ b)"

subsection \<open>Exceptions, the file system and the trace\<close>

datatype exn =
    FileExistsError path
  | FileNotFoundError path
  | NotADirectoryError path
  | IsADirectoryError path
  | ZeroDivisionError
  | OverflowError
  | CodecError string

datatype node = File nat | Dir

text \<open>The calls that read or write media, and the deletions, in the order they happen.\<close>

datatype call =
    OpenVideo path
  | WriteAudio path
  | CloseVideo path
  | LoadWav path
  | ExportMp3 path int
  | Remove path

text \<open>The lines printed, one constructor for each \<^verbatim>\<open>print\<close> of the source.\<close>

datatype message =
    AlreadyExists path
  | NoAudioTrack path
  | ExtractError path exn
  | ProcessError path exn
  | InvalidDirectory path
  | Processing string
  | CreatedAudio path
  | FailedToProcess string

record world =
  nodes :: "path \<Rightarrow> node option"
  calls :: "call list"
  stdout :: "message list"

type_synonym 'a result = "(exn + 'a) \<times> world"

definition call :: "call \<Rightarrow> world \<Rightarrow> world" where
  "call c w = w\<lparr>calls := calls w @ [c]\<rparr>"

definition print :: "message \<Rightarrow> world \<Rightarrow> world" where
  "print m w = w\<lparr>stdout := stdout w @ [m]\<rparr>"

text \<open>Sequencing inside a \<^verbatim>\<open>try\<close> body: an exception skips what follows.\<close>

definition then_do :: "'a result \<Rightarrow> ('a \<Rightarrow> world \<Rightarrow> 'b result) \<Rightarrow> 'b result" where
  "then_do r f = (case r of (Inl e, w) \<Rightarrow> (Inl e, w) | (Inr x, w) \<Rightarrow> f x w)"

definition os_path_exists :: "world \<Rightarrow> path \<Rightarrow> bool" where
  "os_path_exists w p = (nodes w p \<noteq> None)"

definition os_path_isfile :: "world \<Rightarrow> path \<Rightarrow> bool" where
  "os_path_isfile w p = (case nodes w p of Some (File n) \<Rightarrow> True | _ \<Rightarrow> False)"

definition os_path_isdir :: "world \<Rightarrow> path \<Rightarrow> bool" where
  "os_path_isdir w p = (nodes w p = Some Dir)"

text \<open>
  \<^verbatim>\<open>os.path.getsize\<close> is \<^verbatim>\<open>os.stat(p).st_size\<close>; for a directory that is the size of
  the directory's own block, 4096 on the usual file systems.
\<close>

definition os_path_getsize :: "world \<Rightarrow> path \<Rightarrow> exn + nat" where
  "os_path_getsize w p =
     (case nodes w p of
        None \<Rightarrow> Inl (FileNotFoundError p)
      | Some (File n) \<Rightarrow> Inr n
      | Some Dir \<Rightarrow> Inr 4096)"

definition os_remove :: "path \<Rightarrow> world \<Rightarrow> unit result" where
  "os_remove p w =
     (case nodes w p of
        None \<Rightarrow> (Inl (FileNotFoundError p), call (Remove p) w)
      | Some Dir \<Rightarrow> (Inl (IsADirectoryError p), call (Remove p) w)
      | Some (File n) \<Rightarrow> (Inr (), call (Remove p) (w\<lparr>nodes := (nodes w)(p := None)\<rparr>)))"

definition os_mkdir :: "path \<Rightarrow> world \<Rightarrow> unit result" where
  "os_mkdir p w =
     (if os_path_exists w p then (Inl (FileExistsError p), w)
      else if os_path_dirname p \<noteq> [] \<and> \<not> os_path_exists w (os_path_dirname p)
        then (Inl (FileNotFoundError p), w)
      else if os_path_dirname p \<noteq> [] \<and> \<not> os_path_isdir w (os_path_dirname p)
        then (Inl (NotADirectoryError p), w)
      else (Inr (), w\<lparr>nodes := (nodes w)(p \<mapsto> Dir)\<rparr>))"

text \<open>
  \<^verbatim>\<open>os.makedirs(name, exist_ok=True)\<close> for a relative path of one or two components, which
  is what the program passes: the parent is made first when it does not exist, then the
  directory itself, and an error of that last \<^verbatim>\<open>mkdir\<close> is swallowed exactly when the
  path is a directory.
\<close>

definition os_makedirs :: "path \<Rightarrow> world \<Rightarrow> unit result" where
  "os_makedirs name w =
     then_do
       (if os_path_dirname name \<noteq> [] \<and> \<not> os_path_exists w (os_path_dirname name)
        then os_mkdir (os_path_dirname name) w
        else (Inr (), w))
       (\<lambda>_ w1.
          case os_mkdir name w1 of
            (Inl e, w2) \<Rightarrow> if os_path_isdir w2 name then (Inr (), w2) else (Inl e, w2)
          | (Inr u, w2) \<Rightarrow> (Inr u, w2))"

subsection \<open>Python's float arithmetic\<close>

text \<open>\<^verbatim>\<open>int.bit_length\<close> of a positive integer: the number of its binary digits.\<close>

function bit_length :: "int \<Rightarrow> int" where
  "bit_length n = (if n \<le> 0 then 0 else 1 + bit_length (n div 2))"
  by pat_completeness auto
termination
  by (relation "measure nat") auto

declare bit_length.simps [simp del]

definition pow2 :: "int \<Rightarrow> rat" where
  "pow2 e = (if 0 \<le> e then 2 ^ nat e else 1 / 2 ^ nat (- e))"

text \<open>For \<open>0 < x\<close>, the \<open>e\<close> with \<open>2\<^sup>e \<le> x < 2\<^sup>e\<^sup>+\<^sup>1\<close>.\<close>

definition floor_log2 :: "rat \<Rightarrow> int" where
  "floor_log2 x =
     (if 1 \<le> x then bit_length \<lfloor>x\<rfloor> - 1
      else - bit_length (\<lceil>1 / x\<rceil> - 1))"

definition round_half_even :: "rat \<Rightarrow> int" where
  "round_half_even x =
     (let n = \<lfloor>x\<rfloor>; r = x - of_int n
      in if r < 1 / 2 then n
         else if 1 / 2 < r then n + 1
         else if even n then n else n + 1)"

text \<open>
  The binary64 number nearest to \<open>x\<close>, ties to even: 53 significant bits, exponents from
  -1022 (below that the spacing stays \<open>2\<^sup>-\<^sup>1\<^sup>0\<^sup>7\<^sup>4\<close>), and \<open>None\<close> where the
  rounded value would reach \<open>2\<^sup>1\<^sup>0\<^sup>2\<^sup>4\<close>.
\<close>

definition to_double :: "rat \<Rightarrow> rat option" where
  "to_double x =
     (if x = 0 then Some 0
      else let e = max (floor_log2 \<bar>x\<bar>) (- 1022) - 52;
               y = of_int (round_half_even (\<bar>x\<bar> / pow2 e)) * pow2 e
           in if pow2 1024 \<le> y then None else Some (sgn x * y))"

text \<open>
  \<^verbatim>\<open>a / b\<close> on two integers: the correctly rounded quotient, \<^verbatim>\<open>ZeroDivisionError\<close> for
  \<open>b = 0\<close>, \<^verbatim>\<open>OverflowError\<close> when the quotient is too large for a float.
\<close>

definition int_truediv :: "int \<Rightarrow> int \<Rightarrow> exn + rat" where
  "int_truediv a b =
     (if b = 0 then Inl ZeroDivisionError
      else (case to_double (of_int a / of_int b) of
              None \<Rightarrow> Inl OverflowError
            | Some q \<Rightarrow> Inr q))"

text \<open>
  \<^verbatim>\<open>int(a / d)\<close> for an integer \<open>a\<close> and a float \<open>d\<close>: \<open>a\<close> is converted to a float
  (\<^verbatim>\<open>OverflowError\<close> when too large), the quotient is rounded, and \<^verbatim>\<open>int\<close> truncates
  towards zero. A quotient beyond the largest float is \<^verbatim>\<open>inf\<close>, on which \<^verbatim>\<open>int\<close> raises
  \<^verbatim>\<open>OverflowError\<close>.
\<close>

definition py_int :: "rat \<Rightarrow> int" where
  "py_int x = (if 0 \<le> x then \<lfloor>x\<rfloor> else \<lceil>x\<rceil>)"

definition int_of_int_div_float :: "int \<Rightarrow> rat \<Rightarrow> exn + int" where
  "int_of_int_div_float a d =
     (case to_double (of_int a) of
        None \<Rightarrow> Inl OverflowError
      | Some x \<Rightarrow>
          if d = 0 then Inl ZeroDivisionError
          else (case to_double (x / d) of
                  None \<Rightarrow> Inl OverflowError
                | Some q \<Rightarrow> Inr (py_int q)))"

subsection \<open>The codecs\<close>

text \<open>
  What a call that writes a file does: it returns with a complete file of the given size,
  or it raises, having left no file or a partial one.
\<close>

datatype written = Complete nat | Broken exn "nat option"

datatype clip = Clip (audio: "nat option")

datatype segment = Segment (len: nat)

record env =
  VideoFileClip :: "path \<Rightarrow> exn + clip"
  write_audiofile :: "clip \<Rightarrow> path \<Rightarrow> written"
  close :: "clip \<Rightarrow> exn option"
  from_file :: "path \<Rightarrow> exn + segment"
  export :: "segment \<Rightarrow> path \<Rightarrow> int \<Rightarrow> written"
  listdir :: "path \<Rightarrow> string list"

definition write_file :: "path \<Rightarrow> written \<Rightarrow> world \<Rightarrow> unit result" where
  "write_file p out w =
     (if os_path_isdir w p then (Inl (IsADirectoryError p), w)
      else case out of
             Complete n \<Rightarrow> (Inr (), w\<lparr>nodes := (nodes w)(p \<mapsto> File n)\<rparr>)
           | Broken e None \<Rightarrow> (Inl e, w)
           | Broken e (Some n) \<Rightarrow> (Inl e, w\<lparr>nodes := (nodes w)(p \<mapsto> File n)\<rparr>))"

text \<open>\<^verbatim>\<open>VideoFileClip(video_path)\<close>: only an existing regular file can be decoded.\<close>

definition open_video :: "env \<Rightarrow> path \<Rightarrow> world \<Rightarrow> clip result" where
  "open_video env video_path w =
     (case nodes w video_path of
        None \<Rightarrow> Inl (FileNotFoundError video_path)
      | Some Dir \<Rightarrow> Inl (IsADirectoryError video_path)
      | Some (File n) \<Rightarrow> VideoFileClip env video_path,
      call (OpenVideo video_path) w)"

definition close_video :: "env \<Rightarrow> path \<Rightarrow> clip \<Rightarrow> world \<Rightarrow> unit result" where
  "close_video env video_path video w =
     (case close env video of Some e \<Rightarrow> Inl e | None \<Rightarrow> Inr (),
      call (CloseVideo video_path) w)"

text \<open>\<^verbatim>\<open>AudioSegment.from_file(temp_audio, format="wav")\<close>\<close>

definition load_wav :: "env \<Rightarrow> path \<Rightarrow> world \<Rightarrow> segment result" where
  "load_wav env p w =
     (case nodes w p of
        None \<Rightarrow> Inl (FileNotFoundError p)
      | Some Dir \<Rightarrow> Inl (IsADirectoryError p)
      | Some (File n) \<Rightarrow> from_file env p,
      call (LoadWav p) w)"

text \<open>\<^verbatim>\<open>audio.export(final_audio, format="mp3", bitrate=...)\<close>, the bit rate in kbps.\<close>

definition export_mp3 :: "env \<Rightarrow> segment \<Rightarrow> path \<Rightarrow> int \<Rightarrow> world \<Rightarrow> unit result" where
  "export_mp3 env a p bitrate w =
     write_file p (export env a p bitrate) (call (ExportMp3 p bitrate) w)"

subsection \<open>ensure_directories\<close>

definition ensure_directories :: "world \<Rightarrow> (path \<times> path) result" where
  "ensure_directories w =
     (let audio_dir = ''output/audio'';
          analysis_dir = ''output/analysis''
      in then_do (os_makedirs audio_dir w) (\<lambda>_ w1.
         then_do (os_makedirs analysis_dir w1) (\<lambda>_ w2.
         (Inr (audio_dir, analysis_dir), w2))))"

text \<open>
  What a caller can rely on after \<^verbatim>\<open>ensure_directories\<close> has returned: the two output
  directories are directories, and their parent exists.
\<close>

definition dirs_ready :: "world \<Rightarrow> bool" where
  "dirs_ready w =
     (os_path_exists w ''output'' \<and> os_path_isdir w ''output/audio''
      \<and> os_path_isdir w ''output/analysis'')"

definition returns :: "'a result \<Rightarrow> bool" where
  "returns r = (case fst r of Inl e \<Rightarrow> False | Inr x \<Rightarrow> True)"

subsection \<open>video_to_audio\<close>

text \<open>Lines 36 to 38: the paths derived from the video's path.\<close>

definition base_name_of :: "path \<Rightarrow> string" where
  "base_name_of video_path = fst (os_path_splitext (os_path_basename video_path))"

definition temp_audio_of :: "path \<Rightarrow> path" where
  "temp_audio_of video_path =
     os_path_join ''output/audio'' (base_name_of video_path @ ''_temp.wav'')"

definition final_audio_of :: "path \<Rightarrow> path" where
  "final_audio_of video_path =
     os_path_join ''output/audio'' (base_name_of video_path @ ''.mp3'')"

text \<open>
  Lines 46 to 55, the first \<^verbatim>\<open>try\<close>: \<open>Some r\<close> when the function returns \<open>r\<close> from
  inside it, \<open>None\<close> when control falls through to the second \<^verbatim>\<open>try\<close>.
\<close>

definition extract_audio :: "env \<Rightarrow> path \<Rightarrow> path \<Rightarrow> world \<Rightarrow> path option option \<times> world" where
  "extract_audio env video_path temp_audio w =
     (case
        then_do (open_video env video_path w) (\<lambda>video w1.
          if audio video = None
          then (Inr (Some None), print (NoAudioTrack video_path) w1)
          else then_do (write_file temp_audio (write_audiofile env video temp_audio)
                          (call (WriteAudio temp_audio) w1)) (\<lambda>_ w2.
               then_do (close_video env video_path video w2) (\<lambda>_ w3.
               (Inr None, w3))))
      of
        (Inl e, w') \<Rightarrow> (Some None, print (ExtractError video_path e) w')
      | (Inr r, w') \<Rightarrow> (r, w'))"

text \<open>Lines 59 to 69, the body of the second \<^verbatim>\<open>try\<close>.\<close>

definition encode_body :: "env \<Rightarrow> path \<Rightarrow> path \<Rightarrow> int \<Rightarrow> world \<Rightarrow> unit result" where
  "encode_body env temp_audio final_audio max_size_mb w =
     then_do (load_wav env temp_audio w) (\<lambda>audio w1.
     then_do (os_path_getsize w1 temp_audio, w1) (\<lambda>sz w2.
     then_do (int_truediv (int sz) (1024 * 1024), w2) (\<lambda>current_size w3.
       if current_size \<le> of_int max_size_mb
       then export_mp3 env audio final_audio 192 w3
       else
         then_do (int_truediv (int (len audio)) 1000, w3) (\<lambda>duration_s w4.
         then_do (int_of_int_div_float (max_size_mb * 8192) duration_s, w4) (\<lambda>target_bitrate w5.
           let bitrate = max 32 (min 192 target_bitrate)
           in export_mp3 env audio final_audio bitrate w5)))))"

text \<open>
  Lines 58 to 78: the \<^verbatim>\<open>except\<close> clause turns an exception of the body into the return
  value \<^verbatim>\<open>None\<close>; the \<^verbatim>\<open>finally\<close> clause runs on both paths, and an exception raised
  in it replaces the pending return.
\<close>

definition encode_audio :: "env \<Rightarrow> path \<Rightarrow> path \<Rightarrow> int \<Rightarrow> world \<Rightarrow> path option result" where
  "encode_audio env temp_audio final_audio max_size_mb w =
     (let (pending, w1) =
            (case encode_body env temp_audio final_audio max_size_mb w of
               (Inl e, w') \<Rightarrow> (None, print (ProcessError temp_audio e) w')
             | (Inr u, w') \<Rightarrow> (Some final_audio, w'))
      in if os_path_exists w1 temp_audio
         then then_do (os_remove temp_audio w1) (\<lambda>_ w2. (Inr pending, w2))
         else (Inr pending, w1))"

definition video_to_audio :: "env \<Rightarrow> path \<Rightarrow> int \<Rightarrow> world \<Rightarrow> path option result" where
  "video_to_audio env video_path max_size_mb w =
     then_do (ensure_directories w) (\<lambda>(audio_dir, analysis_dir) w1.
       let base_name = fst (os_path_splitext (os_path_basename video_path));
           temp_audio = os_path_join audio_dir (base_name @ ''_temp.wav'');
           final_audio = os_path_join audio_dir (base_name @ ''.mp3'')
       in if os_path_isfile w1 final_audio
          then (Inr (Some final_audio), print (AlreadyExists video_path) w1)
          else case extract_audio env video_path temp_audio w1 of
                 (Some r, w2) \<Rightarrow> (Inr r, w2)
               | (None, w2) \<Rightarrow> encode_audio env temp_audio final_audio max_size_mb w2)"

subsection \<open>process_videos_in_directory\<close>

definition video_extensions :: "string list" where
  "video_extensions = [''.mp4'', ''.avi'', ''.mov'', ''.mkv'']"

definition is_video :: "string \<Rightarrow> bool" where
  "is_video filename = list_ex (endswith (lower filename)) video_extensions"

text \<open>
  The loop of lines 99 to 108 over the names \<^verbatim>\<open>os.listdir\<close> returned. The test
  \<^verbatim>\<open>if output_path\<close> is Python's truth value: neither \<^verbatim>\<open>None\<close> nor the empty string.
\<close>

fun process_entries ::
  "env \<Rightarrow> path \<Rightarrow> string list \<Rightarrow> path list \<Rightarrow> world \<Rightarrow> path list result" where
  "process_entries env directory [] processed w = (Inr processed, w)"
| "process_entries env directory (filename # rest) processed w =
     (if is_video filename
      then
        then_do (video_to_audio env (os_path_join directory filename) 15
                   (print (Processing filename) w)) (\<lambda>output_path w1.
          case output_path of
            None \<Rightarrow>
              process_entries env directory rest processed (print (FailedToProcess filename) w1)
          | Some p \<Rightarrow>
              if p = []
              then process_entries env directory rest processed
                     (print (FailedToProcess filename) w1)
              else process_entries env directory rest (processed @ [p])
                     (print (CreatedAudio p) w1))
      else process_entries env directory rest processed w)"

definition process_videos_in_directory :: "env \<Rightarrow> path \<Rightarrow> world \<Rightarrow> path list result" where
  "process_videos_in_directory env directory w =
     (if \<not> os_path_isdir w directory
      then (Inr [], print (InvalidDirectory directory) w)
      else process_entries env directory (listdir env directory) [] w)"

subsection \<open>Auxiliary notions for the statements\<close>



text \<open>
  Lines 60 to 68 read on their own: the bit rate chosen for an intermediate file of \<open>sz\<close>
  bytes holding \<open>ms\<close> milliseconds of audio, or the exception raised on the way.
\<close>

definition bitrate_for :: "nat \<Rightarrow> int \<Rightarrow> nat \<Rightarrow> exn + int" where
  "bitrate_for sz max_size_mb ms =
     (case int_truediv (int sz) (1024 * 1024) of
        Inl e \<Rightarrow> Inl e
      | Inr current_size \<Rightarrow>
          if current_size \<le> of_int max_size_mb then Inr 192
          else (case int_truediv (int ms) 1000 of
                  Inl e \<Rightarrow> Inl e
                | Inr duration_s \<Rightarrow>
                    (case int_of_int_div_float (max_size_mb * 8192) duration_s of
                       Inl e \<Rightarrow> Inl e
                     | Inr target_bitrate \<Rightarrow> Inr (max 32 (min 192 target_bitrate)))))"


subsection \<open>Example inputs\<close>

text \<open>
  A working directory in which the output directories exist, with a folder of videos and
  one audio file left by an earlier run whose video has since been deleted.
\<close>

definition demo_world :: world where
  "demo_world =
     \<lparr>nodes = [''output'' \<mapsto> Dir, ''output/audio'' \<mapsto> Dir, ''output/analysis'' \<mapsto> Dir,
               ''videos'' \<mapsto> Dir,
               ''videos/a.mp4'' \<mapsto> File 5000000,
               ''videos/b.txt'' \<mapsto> File 12,
               ''videos/c.MKV'' \<mapsto> File 7000000,
               ''videos/corrupt.avi'' \<mapsto> File 100,
               ''videos/d.mov'' \<mapsto> File 800000,
               ''videos/silent.mp4'' \<mapsto> File 3000000,
               ''clips'' \<mapsto> Dir,
               ''clips/a.mp4'' \<mapsto> File 900000,
               ''clips/a.mov'' \<mapsto> File 950000,
               ''output/audio/old.mp3'' \<mapsto> File 777],
      calls = [], stdout = []\<rparr>"

text \<open>
  Codecs that decode every video but \<^verbatim>\<open>corrupt.avi\<close>, find no audio track in
  \<^verbatim>\<open>silent.mp4\<close>, and write one megabyte of audio for each of the others.
\<close>

definition demo_env :: env where
  "demo_env =
     \<lparr>VideoFileClip = (\<lambda>p. if p = ''videos/corrupt.avi'' then Inl (CodecError ''moov atom not found'')
                              else if p = ''videos/silent.mp4'' then Inr (Clip None)
                              else Inr (Clip (Some 0))),
      write_audiofile = (\<lambda>v p. Complete 1048576),
      close = (\<lambda>v. None),
      from_file = (\<lambda>p. Inr (Segment 6000)),
      export = (\<lambda>a p b. Complete 150000),
      listdir = (\<lambda>d. if d = ''videos''
                      then [''a.mp4'', ''b.txt'', ''c.MKV'', ''corrupt.avi'', ''d.mov'']
                      else if d = ''clips'' then [''a.mp4'', ''a.mov'']
                      else [])\<rparr>"

text \<open>Codecs whose \<^verbatim>\<open>write_audiofile\<close> raises after it has written 4096 bytes.\<close>

definition truncating_env :: env where
  "truncating_env =
     demo_env\<lparr>write_audiofile := (\<lambda>v p. Broken (CodecError ''unexpected end of stream'') (Some 4096))\<rparr>"

text \<open>Codecs whose \<^verbatim>\<open>close\<close> raises after the intermediate file is complete.\<close>

definition stuck_env :: env where
  "stuck_env = demo_env\<lparr>close := (\<lambda>v. Some (CodecError ''reader did not terminate''))\<rparr>"

text \<open>A working directory in which \<^verbatim>\<open>output\<close> is a regular file.\<close>

definition blocked_world :: world where
  "blocked_world =
     \<lparr>nodes = [''output'' \<mapsto> File 5, ''videos'' \<mapsto> Dir, ''videos/a.mp4'' \<mapsto> File 5000000],
      calls = [], stdout = []\<rparr>"

text \<open>
  Codecs for a recording of 1146.88 seconds: 202309676 bytes of 16 bit stereo audio at
  44.1 kHz.
\<close>

definition lecture_env :: env where
  "lecture_env =
     demo_env\<lparr>write_audiofile := (\<lambda>v p. Complete 202309676),
              from_file := (\<lambda>p. Inr (Segment 1146880))\<rparr>"

text \<open>Codecs for a recording of 1000 seconds, 176400044 bytes.\<close>

definition concert_env :: env where
  "concert_env =
     demo_env\<lparr>write_audiofile := (\<lambda>v p. Complete 176400044),
              from_file := (\<lambda>p. Inr (Segment 1000000))\<rparr>"

section \<open>Properties\<close>

subsection \<open>Facts about paths\<close>

lemma basename_no_slash: "CHR ''/'' \<notin> set (os_path_basename p)"
proof -
  have "\<forall>c \<in> set (takeWhile (\<lambda>c. c \<noteq> CHR ''/'') (rev p)). c \<noteq> CHR ''/''"
    using set_takeWhileD by fastforce
  then show ?thesis by (auto simp: os_path_basename_def)
qed


lemma splitext_fst_prefix: "\<exists>k. fst (os_path_splitext p) = take k p"
  by (auto simp: os_path_splitext_def Let_def intro: exI[of _ "length p"])

lemma base_name_no_slash: "CHR ''/'' \<notin> set (base_name_of p)"
proof -
  obtain k where "base_name_of p = take k (os_path_basename p)"
    using splitext_fst_prefix unfolding base_name_of_def by blast
  then show ?thesis using basename_no_slash[of p] by (auto dest: in_set_takeD)
qed

lemma join_audio_dir:
  assumes "CHR ''/'' \<notin> set b" and "s \<noteq> []" and "hd s \<noteq> CHR ''/''"
  shows "os_path_join ''output/audio'' (b @ s) = ''output/audio/'' @ b @ s"
  using assms by (cases b; cases s) (auto simp: os_path_join_def startswith_def endswith_def)

lemma temp_audio_of_eq: "temp_audio_of p = ''output/audio/'' @ base_name_of p @ ''_temp.wav''"
  unfolding temp_audio_of_def by (rule join_audio_dir) (simp_all add: base_name_no_slash)

lemma final_audio_of_eq: "final_audio_of p = ''output/audio/'' @ base_name_of p @ ''.mp3''"
  unfolding final_audio_of_def by (rule join_audio_dir) (simp_all add: base_name_no_slash)

lemma temp_neq_final: "temp_audio_of p \<noteq> final_audio_of q"
proof
  assume "temp_audio_of p = final_audio_of q"
  then have "last (temp_audio_of p) = last (final_audio_of q)" by simp
  then show False by (simp add: temp_audio_of_eq final_audio_of_eq)
qed



subsection \<open>Facts about ensure_directories\<close>












subsection \<open>Facts about worlds\<close>

lemma world_simps [simp]:
  "nodes (call c w) = nodes w" "stdout (call c w) = stdout w" "calls (call c w) = calls w @ [c]"
  "nodes (print m w) = nodes w" "stdout (print m w) = stdout w @ [m]" "calls (print m w) = calls w"
  by (simp_all add: call_def print_def)

lemma probe_simps [simp]:
  "os_path_isfile (call c w) p = os_path_isfile w p"
  "os_path_isfile (print m w) p = os_path_isfile w p"
  "os_path_isdir (call c w) p = os_path_isdir w p"
  "os_path_isdir (print m w) p = os_path_isdir w p"
  "os_path_exists (call c w) p = os_path_exists w p"
  "os_path_exists (print m w) p = os_path_exists w p"
  "dirs_ready (call c w) = dirs_ready w"
  "dirs_ready (print m w) = dirs_ready w"
  by (simp_all add: os_path_isfile_def os_path_isdir_def os_path_exists_def dirs_ready_def)

lemma isfile_not_isdir: "os_path_isfile w p \<Longrightarrow> \<not> os_path_isdir w p"
  by (auto simp: os_path_isfile_def os_path_isdir_def)

lemma isfile_exists: "os_path_isfile w p \<Longrightarrow> os_path_exists w p"
  by (auto simp: os_path_isfile_def os_path_exists_def split: option.splits)

text \<open>Between \<open>w\<close> and \<open>w'\<close> nothing was printed and only the path \<open>p\<close> may have changed.\<close>

lemma write_file_props:
  assumes "write_file p out w = (r, w')"
  shows "stdout w' = stdout w" and "calls w' = calls w"
    and "q \<noteq> p \<Longrightarrow> nodes w' q = nodes w q"
    and "r = Inr u \<Longrightarrow> os_path_isfile w' p"
    and "nodes w' p = nodes w p \<or> os_path_isfile w' p"
    and "r = Inr u \<Longrightarrow> \<exists>n. out = Complete n \<and> nodes w' = (nodes w)(p \<mapsto> File n)"
  using assms
  by (auto simp: write_file_def os_path_isfile_def split: if_splits written.splits option.splits)

subsection \<open>The first try: extraction\<close>



subsection \<open>The second try: encoding\<close>

lemma encode_body_shape:
  "(\<exists>e. encode_body env t f m w = (Inl e, call (LoadWav t) w)) \<or>
   (\<exists>a b. encode_body env t f m w = export_mp3 env a f b (call (LoadWav t) w))"
  by (auto simp: encode_body_def then_do_def load_wav_def Let_def split: sum.splits)

lemma export_mp3_props:
  assumes "export_mp3 env a p b w = (r, w')"
  shows "stdout w' = stdout w"
    and "q \<noteq> p \<Longrightarrow> nodes w' q = nodes w q"
    and "r = Inr u \<Longrightarrow> os_path_isfile w' p"
  using write_file_props[OF assms[unfolded export_mp3_def]] by auto

lemma encode_body_props:
  assumes "encode_body env t f m w = (r, w')"
  shows "stdout w' = stdout w"
    and "q \<noteq> f \<Longrightarrow> nodes w' q = nodes w q"
    and "r = Inr u \<Longrightarrow> os_path_isfile w' f"
proof -
  from encode_body_shape[of env t f m w]
  have "stdout w' = stdout w \<and> (\<forall>q. q \<noteq> f \<longrightarrow> nodes w' q = nodes w q)
      \<and> (\<forall>u. r = Inr u \<longrightarrow> os_path_isfile w' f)"
  proof (elim disjE exE)
    fix e assume "encode_body env t f m w = (Inl e, call (LoadWav t) w)"
    with assms show ?thesis by auto
  next
    fix a b assume "encode_body env t f m w = export_mp3 env a f b (call (LoadWav t) w)"
    with assms have x: "export_mp3 env a f b (call (LoadWav t) w) = (r, w')" by simp
    from export_mp3_props[OF x] show ?thesis by simp
  qed
  then show "stdout w' = stdout w"
    and "q \<noteq> f \<Longrightarrow> nodes w' q = nodes w q"
    and "r = Inr u \<Longrightarrow> os_path_isfile w' f"
    by blast+
qed


lemma os_remove_file:
  assumes "os_path_isfile w p"
  shows "os_remove p w = (Inr (), call (Remove p) (w\<lparr>nodes := (nodes w)(p := None)\<rparr>))"
  using assms by (auto simp: os_remove_def os_path_isfile_def split: option.splits node.splits)

lemma encode_audio_eq:
  assumes t: "os_path_isfile w t" and neq: "t \<noteq> f"
    and body: "encode_body env t f m w = (rb, wb)"
  shows "encode_audio env t f m w =
     (case rb of
        Inl e \<Rightarrow> (Inr None,
          call (Remove t) ((print (ProcessError t e) wb)\<lparr>nodes := (nodes wb)(t := None)\<rparr>))
      | Inr u \<Rightarrow> (Inr (Some f), call (Remove t) (wb\<lparr>nodes := (nodes wb)(t := None)\<rparr>)))"
proof -
  have "nodes wb t = nodes w t"
    using encode_body_props(2)[OF body neq] .
  then have tb: "os_path_isfile wb t"
    using t by (simp add: os_path_isfile_def)
  show ?thesis
  proof (cases rb)
    case (Inl e)
    have "os_path_isfile (print (ProcessError t e) wb) t" using tb by simp
    from os_remove_file[OF this] isfile_exists[OF this] Inl body show ?thesis
      by (simp add: encode_audio_def then_do_def)
  next
    case (Inr u)
    from os_remove_file[OF tb] isfile_exists[OF tb] Inr body show ?thesis
      by (simp add: encode_audio_def then_do_def)
  qed
qed


subsection \<open>Facts about video_to_audio\<close>

lemma video_to_audio_unfold:
  assumes "ensure_directories w = (Inr (''output/audio'', ''output/analysis''), w1)"
  shows "video_to_audio env vp m w =
     (if os_path_isfile w1 (final_audio_of vp)
      then (Inr (Some (final_audio_of vp)), print (AlreadyExists vp) w1)
      else case extract_audio env vp (temp_audio_of vp) w1 of
             (Some r, w2) \<Rightarrow> (Inr r, w2)
           | (None, w2) \<Rightarrow> encode_audio env (temp_audio_of vp) (final_audio_of vp) m w2)"
  using assms
  unfolding video_to_audio_def temp_audio_of_def final_audio_of_def base_name_of_def
  by (simp add: then_do_def Let_def)

lemma video_to_audio_raises:
  assumes "ensure_directories w = (Inl e, w1)"
  shows "video_to_audio env vp m w = (Inl e, w1)"
  using assms by (simp add: video_to_audio_def then_do_def)




subsection \<open>Facts about binary64 rounding\<close>

lemma pow2_powi: "pow2 e = 2 powi e"
  by (simp add: pow2_def power_int_def field_simps)

lemma pow2_pos [simp]: "0 < pow2 e"
  by (simp add: pow2_powi)

lemma pow2_nonzero [simp]: "pow2 e \<noteq> 0"
  by (rule not_sym[OF less_imp_neq[OF pow2_pos]])

lemma pow2_add: "pow2 (a + b) = pow2 a * pow2 b"
  by (simp add: pow2_powi power_int_add)

lemma pow2_less_iff: "pow2 a < pow2 b \<longleftrightarrow> a < b"
proof
  assume "a < b"
  then show "pow2 a < pow2 b"
    unfolding pow2_powi by (rule power_int_strict_increasing) simp
next
  assume l: "pow2 a < pow2 b"
  show "a < b"
  proof (rule ccontr)
    assume "\<not> a < b"
    then have "b \<le> a" by simp
    then have "pow2 b \<le> pow2 a"
      unfolding pow2_powi by (rule power_int_increasing) simp
    with l show False by simp
  qed
qed

lemma pow2_le_iff: "pow2 a \<le> pow2 b \<longleftrightarrow> a \<le> b"
  using pow2_less_iff[of b a] by (simp add: not_less[symmetric])

lemma pow2_int: "pow2 (int k) = 2 ^ k"
  by (simp add: pow2_def)

lemma pow2_Suc: "pow2 (e + 1) = 2 * pow2 e"
proof -
  have "pow2 1 = 2" by (simp add: pow2_def)
  then show ?thesis by (simp add: pow2_add)
qed

lemma bit_length_nat:
  "0 < n \<Longrightarrow> \<exists>k::nat. bit_length n = int k + 1 \<and> 2 ^ k \<le> n \<and> n < 2 ^ (k + 1)"
proof (induction n rule: bit_length.induct)
  case (1 n)
  show ?case
  proof (cases "n = 1")
    case True
    have "bit_length 1 = 1" by (simp add: bit_length.simps)
    with True show ?thesis by (intro exI[of _ 0]) simp
  next
    case False
    with "1.prems" have pos: "0 < n div 2" by simp
    from "1.IH" "1.prems" pos obtain k :: nat where
      k: "bit_length (n div 2) = int k + 1" "2 ^ k \<le> n div 2" "n div 2 < 2 ^ (k + 1)"
      by auto
    have b: "bit_length n = int (k + 1) + 1"
      using "1.prems" k(1) by (subst bit_length.simps) simp
    have "(2::int) ^ (k + 1) \<le> n" using k(2) by simp
    moreover have "n < 2 ^ (k + 1 + 1)" using k(3) by simp
    ultimately show ?thesis using b by blast
  qed
qed

lemma bit_length_bounds:
  assumes "0 < n"
  shows "pow2 (bit_length n - 1) \<le> of_int n" and "of_int n < pow2 (bit_length n)"
proof -
  from bit_length_nat[OF assms] obtain k :: nat where
    k: "bit_length n = int k + 1" "2 ^ k \<le> n" "n < 2 ^ (k + 1)" by blast
  have "(of_int (2 ^ k) :: rat) \<le> of_int n" using k(2) by (simp only: of_int_le_iff)
  then show "pow2 (bit_length n - 1) \<le> of_int n"
    by (simp add: k(1) pow2_int)
  have "(of_int n :: rat) < of_int (2 ^ (k + 1))" using k(3) by (simp only: of_int_less_iff)
  moreover have "bit_length n = int (k + 1)" using k(1) by simp
  ultimately show "of_int n < pow2 (bit_length n)"
    by (simp only: pow2_int) simp
qed

lemma floor_log2_bounds:
  assumes "0 < x"
  shows "pow2 (floor_log2 x) \<le> x" and "x < pow2 (floor_log2 x + 1)"
proof -
  have "pow2 (floor_log2 x) \<le> x \<and> x < pow2 (floor_log2 x + 1)"
  proof (cases "1 \<le> x")
    case True
    then have f: "0 < \<lfloor>x\<rfloor>" by simp
    have e: "floor_log2 x = bit_length \<lfloor>x\<rfloor> - 1" using True by (simp add: floor_log2_def)
    have "pow2 (bit_length \<lfloor>x\<rfloor> - 1) \<le> of_int \<lfloor>x\<rfloor>" by (rule bit_length_bounds(1)[OF f])
    also have "\<dots> \<le> x" by simp
    finally have lo: "pow2 (floor_log2 x) \<le> x" by (simp add: e)
    have "of_int (\<lfloor>x\<rfloor> + 1) \<le> pow2 (bit_length \<lfloor>x\<rfloor>)"
    proof -
      from bit_length_nat[OF f] obtain k :: nat where
        k: "bit_length \<lfloor>x\<rfloor> = int (k + 1)" "\<lfloor>x\<rfloor> < 2 ^ (k + 1)" by auto
      then have "\<lfloor>x\<rfloor> + 1 \<le> 2 ^ (k + 1)" by simp
      then have "(of_int (\<lfloor>x\<rfloor> + 1) :: rat) \<le> of_int (2 ^ (k + 1))" by (simp only: of_int_le_iff)
      then show ?thesis by (simp only: k(1) pow2_int) simp
    qed
    moreover have "x < of_int (\<lfloor>x\<rfloor> + 1)" using floor_correct[of x] by blast
    ultimately have "x < pow2 (floor_log2 x + 1)" by (simp add: e)
    with lo show ?thesis by simp
  next
    case False
    let ?c = "\<lceil>1 / x\<rceil>"
    have inv: "1 < 1 / x" using False assms by simp
    then have c: "0 < ?c - 1" by (simp add: less_ceiling_iff)
    have e: "floor_log2 x = - bit_length (?c - 1)" using False by (simp add: floor_log2_def)
    from bit_length_nat[OF c] obtain k :: nat where
      k: "bit_length (?c - 1) = int (k + 1)" "2 ^ k \<le> ?c - 1" "?c - 1 < 2 ^ (k + 1)" by auto
    have "(of_int (2 ^ k) :: rat) \<le> of_int (?c - 1)" using k(2) by (simp only: of_int_le_iff)
    also have "\<dots> < 1 / x" using ceiling_correct[of "1 / x"] by simp
    finally have a: "2 ^ k < 1 / x" by (simp only: of_int_power of_int_numeral)
    have "?c \<le> 2 ^ (k + 1)" using k(3) by simp
    then have "(of_int ?c :: rat) \<le> of_int (2 ^ (k + 1))" by (simp only: of_int_le_iff)
    moreover have "1 / x \<le> of_int ?c" by simp
    ultimately have b: "1 / x \<le> 2 ^ (k + 1)" by (simp only: of_int_power of_int_numeral)
    have lo: "1 / 2 ^ (k + 1) \<le> x"
      using b assms by (simp add: field_simps)
    have hi: "x < 1 / 2 ^ k"
      using a assms by (simp add: field_simps)
    have "pow2 (- int (k + 1)) = 1 / 2 ^ (k + 1)" by (simp add: pow2_def nat_add_distrib)
    moreover have "pow2 (- int k) = 1 / 2 ^ k"
      by (auto simp: pow2_def)
    then have "pow2 (- int (k + 1) + 1) = 1 / 2 ^ k"
      by simp
    ultimately show ?thesis using lo hi by (simp add: e k(1))
  qed
  then show "pow2 (floor_log2 x) \<le> x" and "x < pow2 (floor_log2 x + 1)" by simp_all
qed

lemma floor_log2_unique:
  assumes "pow2 e \<le> x" and "x < pow2 (e + 1)"
  shows "floor_log2 x = e"
proof -
  have pos: "0 < x" by (rule less_le_trans[OF pow2_pos assms(1)])
  note b = floor_log2_bounds[OF pos]
  have "pow2 e < pow2 (floor_log2 x + 1)" using assms(1) b(2) by simp
  then have 1: "e < floor_log2 x + 1" by (simp add: pow2_less_iff)
  have "pow2 (floor_log2 x) < pow2 (e + 1)" using assms(2) b(1) by simp
  then have 2: "floor_log2 x < e + 1" by (simp add: pow2_less_iff)
  from 1 2 show ?thesis by simp
qed

lemma round_half_even_near:
  assumes "\<bar>x - of_int m\<bar> < 1 / 2"
  shows "round_half_even x = m"
proof -
  let ?n = "\<lfloor>x\<rfloor>"
  have n: "of_int ?n \<le> x" "x < of_int ?n + 1" using floor_correct[of x] by simp_all
  from assms have m: "of_int m - 1 / 2 < x" "x < of_int m + 1 / 2" by linarith+
  have "of_int m < (of_int ?n :: rat) + 3 / 2" using n(2) m(1) by linarith
  then have "of_int m < (of_int (?n + 2) :: rat)" by simp
  then have u: "m < ?n + 2" by (simp only: of_int_less_iff)
  have "(of_int ?n :: rat) < of_int m + 1 / 2" using n(1) m(2) by linarith
  then have "(of_int ?n :: rat) < of_int (m + 1)" by simp
  then have l: "?n < m + 1" by (simp only: of_int_less_iff)
  from u l consider "m = ?n" | "m = ?n + 1" by linarith
  then show ?thesis
  proof cases
    case 1
    with m(2) show ?thesis by (simp add: round_half_even_def Let_def)
  next
    case 2
    with m(1) show ?thesis by (simp add: round_half_even_def Let_def)
  qed
qed

lemma round_half_even_of_int [simp]: "round_half_even (of_int m) = m"
  by (rule round_half_even_near) simp


lemma to_double_eqI:
  assumes lo: "pow2 p \<le> x" and hi: "x < pow2 (p + 1)" and p: "- 1022 \<le> p"
    and m: "\<bar>x / pow2 (p - 52) - of_int m\<bar> < 1 / 2"
    and fin: "of_int m * pow2 (p - 52) < pow2 1024"
  shows "to_double x = Some (of_int m * pow2 (p - 52))"
proof -
  have pos: "0 < x" by (rule less_le_trans[OF pow2_pos lo])
  have fl: "floor_log2 x = p"
    using lo hi by (rule floor_log2_unique)
  have r: "round_half_even (x / pow2 (p - 52)) = m"
    using m by (rule round_half_even_near)
  show ?thesis
    using pos p fin by (simp add: to_double_def Let_def fl r max_def)
qed

lemma to_double_dyadic:
  assumes n: "0 < n" "n < 2 ^ 53" and j: "- 1074 \<le> j" and fin: "of_int n * pow2 j < pow2 1024"
  shows "to_double (of_int n * pow2 j) = Some (of_int n * pow2 j)"
proof -
  let ?x = "of_int n * pow2 j"
  have pos: "0 < ?x" using n(1) by simp
  define e where "e = max (floor_log2 ?x) (- 1022) - 52"
  have "?x < pow2 (53 + j)"
  proof -
    have "(of_int n :: rat) < of_int (2 ^ 53)" using n(2) by (simp only: of_int_less_iff)
    then have "(of_int n :: rat) < pow2 53" by (simp add: pow2_def)
    then show ?thesis by (simp add: pow2_add)
  qed
  with floor_log2_bounds(1)[OF pos] have "pow2 (floor_log2 ?x) < pow2 (53 + j)" by simp
  then have "floor_log2 ?x < 53 + j" by (simp add: pow2_less_iff)
  with j have ej: "e \<le> j" by (simp add: e_def)
  then obtain d :: nat where d: "j = e + int d"
    by (metis zle_iff_zadd)
  have "?x / pow2 e = of_int n * pow2 (int d)"
    by (simp add: d pow2_add)
  also have "\<dots> = of_int (n * 2 ^ d)" by (simp add: pow2_int)
  finally have q: "?x / pow2 e = of_int (n * 2 ^ d)" .
  have scaled: "of_int (n * 2 ^ d) * pow2 e = ?x"
    by (simp add: d pow2_add pow2_int)
  have ax: "\<bar>?x\<bar> = ?x" by (rule abs_of_pos[OF pos])
  have sx: "sgn ?x = 1" by (rule sgn_pos[OF pos])
  have nz: "(?x = 0) = False" using less_imp_neq[OF pos] by metis
  have td: "to_double ?x =
      (if pow2 1024 \<le> of_int (round_half_even (?x / pow2 e)) * pow2 e then None
       else Some (of_int (round_half_even (?x / pow2 e)) * pow2 e))"
    by (simp only: to_double_def ax sx nz if_False Let_def e_def mult_1)
  have rh: "round_half_even (?x / pow2 e) = n * 2 ^ d"
    unfolding q by (rule round_half_even_of_int)
  show ?thesis
    unfolding td rh scaled using fin by simp
qed

lemma to_double_of_nat:
  assumes "n < 2 ^ 53" and nn: "0 \<le> n"
  shows "to_double (of_int n) = Some (of_int n)"
proof (cases "n = 0")
  case True
  then show ?thesis by (simp add: to_double_def)
next
  case False
  with nn have "0 < n" by simp
  moreover have "(of_int n :: rat) * pow2 0 < pow2 1024"
  proof -
    have "(of_int n :: rat) < of_int (2 ^ 53)" using assms by (simp only: of_int_less_iff)
    also have "\<dots> = pow2 53" by (simp add: pow2_def)
    also have "\<dots> < pow2 1024" by (simp add: pow2_less_iff)
    finally show ?thesis by (simp add: pow2_def)
  qed
  ultimately have "to_double (of_int n * pow2 0) = Some (of_int n * pow2 0)"
    using assms by (intro to_double_dyadic) simp_all
  then show ?thesis by (simp add: pow2_def)
qed

lemma size_in_mb_exact:
  assumes "sz < 2 ^ 53"
  shows "int_truediv (int sz) (1024 * 1024) = Inr (of_nat sz / 1048576)"
proof (cases "sz = 0")
  case True
  then show ?thesis by (simp add: int_truediv_def to_double_def)
next
  case False
  have s: "(of_int (int sz) :: rat) * pow2 (- 20) = of_nat sz / 1048576"
    by (simp add: pow2_def)
  have "(of_int (int sz) :: rat) < of_int (2 ^ 53)"
    using assms by (simp only: of_int_less_iff) simp
  also have "\<dots> = pow2 53" by (simp add: pow2_def)
  finally have "(of_int (int sz) :: rat) * pow2 (- 20) < pow2 53 * pow2 (- 20)"
    by simp
  also have "\<dots> = pow2 33" by (simp flip: pow2_add)
  also have "\<dots> < pow2 1024" by (simp add: pow2_less_iff)
  finally have fin: "(of_int (int sz) :: rat) * pow2 (- 20) < pow2 1024" .
  have "to_double (of_int (int sz) * pow2 (- 20)) = Some (of_int (int sz) * pow2 (- 20))"
    using False assms fin by (intro to_double_dyadic) simp_all
  then show ?thesis
    unfolding s by (simp add: int_truediv_def)
qed


lemma size_in_mb_exact_int:
  assumes "0 \<le> a" and "a < 2 ^ 53"
  shows "int_truediv a 1048576 = Inr (of_int a / 1048576)"
proof -
  have "nat a < 2 ^ 53" using assms by (simp add: nat_less_iff)
  from size_in_mb_exact[OF this] assms(1) show ?thesis by simp
qed

subsection \<open>The error of rounding\<close>

lemma round_half_even_range:
  shows "\<lfloor>x\<rfloor> \<le> round_half_even x" and "round_half_even x \<le> \<lfloor>x\<rfloor> + 1"
  by (simp_all add: round_half_even_def Let_def)

lemma round_half_even_error: "\<bar>x - of_int (round_half_even x)\<bar> \<le> 1 / 2"
proof -
  have f: "of_int \<lfloor>x\<rfloor> \<le> x" "x < of_int \<lfloor>x\<rfloor> + 1"
    using floor_correct[of x] by simp_all
  have "round_half_even x = \<lfloor>x\<rfloor> \<or> round_half_even x = \<lfloor>x\<rfloor> + 1"
    using round_half_even_range(1)[of x] round_half_even_range(2)[of x] by linarith
  then show ?thesis
  proof
    assume r: "round_half_even x = \<lfloor>x\<rfloor>"
    have "\<not> 1 / 2 < x - of_int \<lfloor>x\<rfloor>"
    proof
      assume "1 / 2 < x - of_int \<lfloor>x\<rfloor>"
      then have "round_half_even x = \<lfloor>x\<rfloor> + 1" by (simp add: round_half_even_def Let_def)
      with r show False by simp
    qed
    then show ?thesis unfolding r using f by linarith
  next
    assume r: "round_half_even x = \<lfloor>x\<rfloor> + 1"
    have "\<not> x - of_int \<lfloor>x\<rfloor> < 1 / 2"
    proof
      assume "x - of_int \<lfloor>x\<rfloor> < 1 / 2"
      then have "round_half_even x = \<lfloor>x\<rfloor>" by (simp add: round_half_even_def Let_def)
      with r show False by simp
    qed
    then show ?thesis unfolding r using f by (simp only: of_int_add of_int_1)
  qed
qed

lemma to_double_normal:
  assumes lo: "pow2 p \<le> x" and hi: "x < pow2 (p + 1)" and p: "- 1022 \<le> p" "p \<le> 1022"
  obtains y where "to_double x = Some y" and "\<bar>y - x\<bar> \<le> pow2 (p - 53)"
    and "pow2 p \<le> y" and "y \<le> pow2 (p + 1)"
proof -
  have pos: "0 < x" by (rule less_le_trans[OF pow2_pos lo])
  have fl: "floor_log2 x = p" using lo hi by (rule floor_log2_unique)
  define e where "e = p - 52"
  define v where "v = x / pow2 e"
  define k where "k = round_half_even v"
  define y where "y = of_int k * pow2 e"
  have xv: "x = v * pow2 e" by (simp add: v_def)
  have "p = 52 + e" and "p + 1 = 53 + e" by (simp_all add: e_def)
  then have p52: "pow2 p = pow2 52 * pow2 e" and p53: "pow2 (p + 1) = pow2 53 * pow2 e"
    by (metis pow2_add)+
  have vlo: "pow2 52 \<le> v"
    using lo unfolding xv p52 by simp
  have vhi: "v < pow2 53"
    using hi unfolding xv p53 by simp
  have c52: "pow2 52 = of_int (2 ^ 52)" and c53: "pow2 53 = of_int (2 ^ 53)"
    by (simp_all add: pow2_def)
  have "(2 ^ 52 :: int) \<le> \<lfloor>v\<rfloor>" using vlo unfolding c52 by (simp only: le_floor_iff)
  then have klo: "2 ^ 52 \<le> k" using round_half_even_range(1)[of v] unfolding k_def by linarith
  have "\<lfloor>v\<rfloor> < (2 ^ 53 :: int)" using vhi unfolding c53 by (simp only: floor_less_iff)
  then have khi: "k \<le> 2 ^ 53" using round_half_even_range(2)[of v] unfolding k_def by linarith
  have ylo: "pow2 p \<le> y"
  proof -
    have "(of_int (2 ^ 52) :: rat) \<le> of_int k" using klo by (simp only: of_int_le_iff)
    then have "pow2 52 * pow2 e \<le> of_int k * pow2 e" unfolding c52 by simp
    then show ?thesis by (simp add: y_def p52)
  qed
  have yhi: "y \<le> pow2 (p + 1)"
  proof -
    have "(of_int k :: rat) \<le> of_int (2 ^ 53)" using khi by (simp only: of_int_le_iff)
    then have "of_int k * pow2 e \<le> pow2 53 * pow2 e" unfolding c53 by simp
    then show ?thesis by (simp add: y_def p53)
  qed
  have err: "\<bar>y - x\<bar> \<le> pow2 (p - 53)"
  proof -
    have "y - x = (of_int k - v) * pow2 e" by (simp add: y_def xv algebra_simps)
    then have "\<bar>y - x\<bar> = \<bar>v - of_int k\<bar> * pow2 e"
      by (simp add: abs_mult abs_minus_commute abs_of_pos)
    also have "\<dots> \<le> (1 / 2) * pow2 e"
      using round_half_even_error[of v] unfolding k_def by simp
    also have "\<dots> = pow2 (p - 53)"
    proof -
      have "pow2 e = pow2 (p - 53 + 1)" by (simp add: e_def)
      then show ?thesis by (simp only: pow2_Suc)
    qed
    finally show ?thesis .
  qed
  have fin: "y < pow2 1024"
  proof -
    have "pow2 (p + 1) < pow2 1024" using p by (simp add: pow2_less_iff)
    with yhi show ?thesis by simp
  qed
  have ax: "\<bar>x\<bar> = x" by (rule abs_of_pos[OF pos])
  have sx: "sgn x = 1" by (rule sgn_pos[OF pos])
  have nz: "(x = 0) = False" using less_imp_neq[OF pos] by metis
  have mx: "max p (- 1022) = p" using p by simp
  have "to_double x = (if pow2 1024 \<le> y then None else Some y)"
    by (simp only: to_double_def ax sx nz if_False Let_def fl mx y_def k_def v_def e_def mult_1)
  with fin have "to_double x = Some y" by simp
  with err ylo yhi that show ?thesis by blast
qed


lemma to_double_rel:
  assumes "pow2 (- 1022) \<le> x" and "x < pow2 1023"
  obtains y where "to_double x = Some y" and "\<bar>y - x\<bar> \<le> x / 2 ^ 53" and "0 < y"
proof -
  have pos: "0 < x" by (rule less_le_trans[OF pow2_pos assms(1)])
  let ?p = "floor_log2 x"
  note b = floor_log2_bounds[OF pos]
  have "pow2 (- 1022) < pow2 (?p + 1)" using assms(1) b(2) by simp
  then have p1: "- 1022 \<le> ?p" by (simp add: pow2_less_iff)
  have "pow2 ?p < pow2 1023" using assms(2) b(1) by simp
  then have p2: "?p \<le> 1022" by (simp add: pow2_less_iff)
  from to_double_normal[OF b p1 p2] obtain y where
    y: "to_double x = Some y" "\<bar>y - x\<bar> \<le> pow2 (?p - 53)" "pow2 ?p \<le> y" by blast
  have "pow2 (?p - 53) = pow2 ?p * pow2 (- 53)" by (simp flip: pow2_add)
  also have "\<dots> = pow2 ?p / 2 ^ 53" by (simp add: pow2_def)
  also have "\<dots> \<le> x / 2 ^ 53" using b(1) by (simp add: divide_right_mono)
  finally have "\<bar>y - x\<bar> \<le> x / 2 ^ 53" using y(2) by simp
  moreover have "0 < y" by (rule less_le_trans[OF pow2_pos y(3)])
  ultimately show ?thesis using y(1) that by blast
qed

lemma quotient_perturb:
  fixes A D dur u :: rat
  assumes "0 < A" and "0 < D" and "0 < dur" and "\<bar>dur - D\<bar> \<le> D * u"
  shows "\<bar>A / dur - A / D\<bar> \<le> (A / dur) * u"
proof -
  have pos: "0 < A / dur" using assms(1,3) by simp
  have eq: "A / dur - A / D = (A / dur) * ((D - dur) / D)"
    using assms(2,3) by (simp add: field_simps)
  have "\<bar>A / dur - A / D\<bar> = \<bar>A / dur\<bar> * \<bar>(D - dur) / D\<bar>"
    unfolding eq by (rule abs_mult)
  also have "\<bar>A / dur\<bar> = A / dur" using pos by (rule abs_of_pos)
  also have "\<bar>(D - dur) / D\<bar> = \<bar>dur - D\<bar> / D"
    using assms(2) by (simp add: abs_minus_commute)
  also have "(A / dur) * (\<bar>dur - D\<bar> / D) \<le> (A / dur) * ((D * u) / D)"
    using assms(2,4) pos by (intro mult_left_mono divide_right_mono) simp_all
  also have "\<dots> = (A / dur) * u" using assms(2) by simp
  finally show ?thesis .
qed

text \<open>
  The quotient of a positive integer \<open>A\<close> by the duration, both steps rounded, against the
  exact quotient.
\<close>

lemma rounded_quotient_error:
  assumes A: "0 < A" "A < 2 ^ 40" and L: "0 < L" "L < 2 ^ 63"
  obtains dur q where "to_double (of_int L / 1000) = Some dur" and "dur \<noteq> 0"
    and "to_double (of_int A / dur) = Some q" and "0 < q"
    and "\<bar>q - of_int A / (of_int L / 1000)\<bar> < 1"
proof -
  define D :: rat where "D = of_int L / 1000"
  define a :: rat where "a = of_int A"
  have Lr: "(1::rat) \<le> of_int L" "(of_int L :: rat) < 2 ^ 63"
  proof -
    have "(of_int 1 :: rat) \<le> of_int L" using L(1) by (simp only: of_int_le_iff)
    then show "(1::rat) \<le> of_int L" by simp
    have "(of_int L :: rat) < of_int (2 ^ 63)" using L(2) by (simp only: of_int_less_iff)
    then show "(of_int L :: rat) < 2 ^ 63" by simp
  qed
  have Ar: "1 \<le> a" "a < 2 ^ 40"
  proof -
    have "(of_int 1 :: rat) \<le> of_int A" using A(1) by (simp only: of_int_le_iff)
    then show "1 \<le> a" by (simp add: a_def)
    have "(of_int A :: rat) < of_int (2 ^ 40)" using A(2) by (simp only: of_int_less_iff)
    then show "a < 2 ^ 40" by (simp add: a_def)
  qed
  have apos: "0 < a" using Ar(1) by linarith
  have Dlo: "1 / 1000 \<le> D" using Lr(1) by (simp add: D_def)
  have Dhi: "D < 2 ^ 63" using Lr(2) by (simp add: D_def)
  have Dpos: "0 < D" using Dlo by linarith
  have D1: "pow2 (- 1022) \<le> D"
  proof -
    have "pow2 (- 1022) \<le> pow2 (- 10)" by (simp add: pow2_le_iff)
    also have "\<dots> \<le> 1 / 1000" by (simp add: pow2_def)
    finally show ?thesis using Dlo by linarith
  qed
  have D2: "D < pow2 1023"
  proof -
    have "(2 ^ 63 :: rat) = pow2 63" by (simp add: pow2_def)
    also have "\<dots> < pow2 1023" by (simp add: pow2_less_iff)
    finally show ?thesis using Dhi by linarith
  qed
  from to_double_rel[OF D1 D2] obtain dur where
    dur: "to_double D = Some dur" "\<bar>dur - D\<bar> \<le> D / 2 ^ 53" "0 < dur" by blast
  have small: "D / 2 ^ 53 \<le> D / 2" using Dpos by (simp add: field_simps)
  have half: "D / 2 \<le> dur" using dur(2) small by linarith
  have "(2 ^ 64 :: rat) = 2 * 2 ^ 63" by simp
  then have dhi: "dur < 2 ^ 64" using dur(2) small Dhi Dpos by linarith
  define Y where "Y = a / dur"
  define X where "X = a / D"
  have Ypos: "0 < Y" using apos dur(3) by (simp add: Y_def)
  have Xpos: "0 < X" using apos Dpos by (simp add: X_def)
  have YX: "Y \<le> 2 * X"
  proof -
    have "a / dur \<le> a / (D / 2)"
      using half Dpos apos by (intro divide_left_mono) simp_all
    also have "\<dots> = 2 * (a / D)" by simp
    finally show ?thesis by (simp add: Y_def X_def)
  qed
  have Xhi: "X < 2 ^ 50"
  proof -
    have "a / D \<le> a / (1 / 1000)"
      using Dlo apos by (intro divide_left_mono) simp_all
    also have "\<dots> = a * 1000" by simp
    also have "\<dots> < 2 ^ 40 * 1000" using Ar(2) by simp
    also have "\<dots> < (2 ^ 50 :: rat)" by simp
    finally show ?thesis by (simp add: X_def)
  qed
  have Y1: "pow2 (- 1022) \<le> Y"
  proof -
    have "pow2 (- 1022) \<le> pow2 (- 64)" by (simp add: pow2_le_iff)
    also have "\<dots> = 1 / 2 ^ 64" by (simp add: pow2_def)
    also have "\<dots> \<le> 1 / dur"
      using dhi dur(3) by (intro divide_left_mono) simp_all
    also have "\<dots> \<le> a / dur" using Ar(1) dur(3) by (simp add: divide_right_mono)
    finally show ?thesis by (simp add: Y_def)
  qed
  have Y2: "Y < pow2 1023"
  proof -
    have "Y < 2 * 2 ^ 50" using YX Xhi by linarith
    also have "\<dots> = pow2 51" by (simp add: pow2_def)
    also have "\<dots> < pow2 1023" by (simp add: pow2_less_iff)
    finally show ?thesis .
  qed
  from to_double_rel[OF Y1 Y2] obtain q where
    q: "to_double Y = Some q" "\<bar>q - Y\<bar> \<le> Y / 2 ^ 53" "0 < q" by blast
  have "\<bar>dur - D\<bar> \<le> D * (1 / 2 ^ 53)" using dur(2) by simp
  from quotient_perturb[OF apos Dpos dur(3) this]
  have e1: "\<bar>Y - X\<bar> \<le> Y / 2 ^ 53" by (simp add: Y_def X_def)
  have y53: "Y / 2 ^ 53 < 1 / 4"
  proof -
    have "(2 ^ 51 :: rat) = 2 * 2 ^ 50" by simp
    then have "Y < 2 ^ 51" using YX Xhi by linarith
    then have "Y / 2 ^ 53 < 2 ^ 51 / 2 ^ 53" by (simp add: divide_strict_right_mono)
    then show ?thesis by simp
  qed
  have "\<bar>q - X\<bar> < 1" using q(2) e1 y53 by linarith
  then have "\<bar>q - of_int A / (of_int L / 1000)\<bar> < 1"
    by (simp only: X_def a_def D_def)
  moreover have "dur \<noteq> 0" using dur(3) by simp
  moreover have "to_double (of_int L / 1000) = Some dur" using dur(1) by (simp only: D_def)
  moreover have "to_double (of_int A / dur) = Some q" using q(1) by (simp only: Y_def a_def)
  ultimately show ?thesis using q(3) that by blast
qed

lemma clamp_close:
  fixes a b :: int
  assumes "\<bar>a - b\<bar> \<le> 1"
  shows "\<bar>max 32 (min 192 a) - max 32 (min 192 b)\<bar> \<le> 1"
  using assms by (simp add: max_def min_def) linarith

lemma floor_close:
  fixes q x :: rat
  assumes "\<bar>q - x\<bar> < 1"
  shows "\<bar>\<lfloor>q\<rfloor> - \<lfloor>x\<rfloor>\<bar> \<le> 1"
proof -
  have fq: "of_int \<lfloor>q\<rfloor> \<le> q" "q < of_int \<lfloor>q\<rfloor> + 1" using floor_correct[of q] by simp_all
  have fx: "of_int \<lfloor>x\<rfloor> \<le> x" "x < of_int \<lfloor>x\<rfloor> + 1" using floor_correct[of x] by simp_all
  have "(of_int \<lfloor>q\<rfloor> :: rat) < of_int \<lfloor>x\<rfloor> + 2" using fq(1) fx(2) assms by linarith
  then have "(of_int \<lfloor>q\<rfloor> :: rat) < of_int (\<lfloor>x\<rfloor> + 2)" by simp
  then have 1: "\<lfloor>q\<rfloor> < \<lfloor>x\<rfloor> + 2" by (simp only: of_int_less_iff)
  have "(of_int \<lfloor>x\<rfloor> :: rat) < of_int \<lfloor>q\<rfloor> + 2" using fx(1) fq(2) assms by linarith
  then have "(of_int \<lfloor>x\<rfloor> :: rat) < of_int (\<lfloor>q\<rfloor> + 2)" by simp
  then have 2: "\<lfloor>x\<rfloor> < \<lfloor>q\<rfloor> + 2" by (simp only: of_int_less_iff)
  from 1 2 show ?thesis by linarith
qed

subsection \<open>Some computations in binary64\<close>

lemma py_int_eqI: "of_int k \<le> x \<Longrightarrow> x < of_int k + 1 \<Longrightarrow> 0 \<le> k \<Longrightarrow> py_int x = k"
  by (simp add: py_int_def floor_unique order_trans[of 0 "of_int k" x])

lemma duration_1146880:
  "int_truediv 1146880 1000 = Inr (of_int 5044031582654956 * pow2 (10 - 52))"
proof -
  have "to_double (28672 / 25) = Some (of_int 5044031582654956 * pow2 (10 - 52))"
    by (rule to_double_eqI) (simp_all add: pow2_def)
  then show ?thesis by (simp add: int_truediv_def)
qed

lemma target_7_1146880:
  "int_of_int_div_float (7 * 8192) (of_int 5044031582654956 * pow2 (10 - 52)) = Inr 49"
proof -
  have a: "to_double (of_int (7 * 8192)) = Some (of_int (7 * 8192))"
    by (rule to_double_of_nat) simp_all
  have b: "to_double (of_int (7 * 8192) / (of_int 5044031582654956 * pow2 (10 - 52)))
      = Some (of_int 7036874417766399 * pow2 (5 - 52))"
    by (rule to_double_eqI) (simp_all add: pow2_def)
  have c: "py_int (of_int 7036874417766399 * pow2 (5 - 52)) = 49"
    by (rule py_int_eqI) (simp_all add: pow2_def)
  have d: "(of_int 5044031582654956 * pow2 (10 - 52) = 0) = False"
    by simp
  show ?thesis
    by (simp only: int_of_int_div_float_def a b c d option.simps if_False)
qed

lemma duration_1000000: "int_truediv 1000000 1000 = Inr 1000"
proof -
  have "to_double (of_int 1000) = Some (of_int 1000)"
    by (rule to_double_of_nat) simp_all
  then show ?thesis by (simp add: int_truediv_def)
qed

lemma target_15_1000000: "int_of_int_div_float (15 * 8192) 1000 = Inr 122"
proof -
  have a: "to_double (of_int (15 * 8192)) = Some (of_int (15 * 8192))"
    by (rule to_double_of_nat) simp_all
  have b: "to_double (of_int (15 * 8192) / 1000) = Some (of_int 8646911284551352 * pow2 (6 - 52))"
    by (rule to_double_eqI) (simp_all add: pow2_def)
  have c: "py_int (of_int 8646911284551352 * pow2 (6 - 52)) = 122"
    by (rule py_int_eqI) (simp_all add: pow2_def)
  have d: "((1000::rat) = 0) = False"
    by simp
  show ?thesis
    by (simp only: int_of_int_div_float_def a b c d option.simps if_False)
qed

subsection \<open>The paths through video_to_audio\<close>

lemma isfile_iff: "os_path_isfile w p = (\<exists>n. nodes w p = Some (File n))"
  by (auto simp: os_path_isfile_def split: option.splits node.splits)







lemma encode_body_run:
  assumes "nodes w t = Some (File n)" and "from_file env t = Inr a"
  shows "encode_body env t f m w =
     (case bitrate_for n m (len a) of
        Inl e \<Rightarrow> (Inl e, call (LoadWav t) w)
      | Inr b \<Rightarrow> export_mp3 env a f b (call (LoadWav t) w))"
  using assms
  by (simp add: encode_body_def load_wav_def then_do_def os_path_getsize_def bitrate_for_def
      Let_def split: sum.splits)

lemma extract_audio_run:
  assumes "os_path_isfile w vp" and "\<not> os_path_isdir w t"
    and "VideoFileClip env vp = Inr video" and "audio video \<noteq> None"
    and "write_audiofile env video t = Complete n" and "close env video = None"
  shows "extract_audio env vp t w =
     (None, call (CloseVideo vp) ((call (WriteAudio t) (call (OpenVideo vp) w))
        \<lparr>nodes := (nodes w)(t \<mapsto> File n)\<rparr>))"
proof -
  from assms(1) obtain s where "nodes w vp = Some (File s)" by (auto simp: isfile_iff)
  then show ?thesis
    using assms(2-)
    by (simp add: extract_audio_def open_video_def then_do_def write_file_def close_video_def)
qed

lemma transcode_run:
  assumes ens: "ensure_directories w = (Inr (''output/audio'', ''output/analysis''), w1)"
    and nf: "\<not> os_path_exists w1 (final_audio_of vp)"
    and nt: "\<not> os_path_isdir w1 (temp_audio_of vp)"
    and v: "os_path_isfile w1 vp"
    and dec: "VideoFileClip env vp = Inr video" "audio video \<noteq> None"
      "write_audiofile env video (temp_audio_of vp) = Complete n" "close env video = None"
    and wav: "from_file env (temp_audio_of vp) = Inr a"
    and rate: "bitrate_for n m (len a) = Inr b"
    and exp: "export env a (final_audio_of vp) b = Complete k"
  shows "video_to_audio env vp m w =
     (Inr (Some (final_audio_of vp)),
      w1\<lparr>nodes := (nodes w1)(final_audio_of vp \<mapsto> File k, temp_audio_of vp := None),
         calls := calls w1 @ [OpenVideo vp, WriteAudio (temp_audio_of vp), CloseVideo vp,
           LoadWav (temp_audio_of vp), ExportMp3 (final_audio_of vp) b,
           Remove (temp_audio_of vp)]\<rparr>)"
proof -
  let ?t = "temp_audio_of vp" and ?f = "final_audio_of vp"
  let ?w2 = "call (CloseVideo vp) ((call (WriteAudio ?t) (call (OpenVideo vp) w1))
        \<lparr>nodes := (nodes w1)(?t \<mapsto> File n)\<rparr>)"
  have x: "extract_audio env vp ?t w1 = (None, ?w2)"
    by (rule extract_audio_run[OF v nt dec])
  have t2: "os_path_isfile ?w2 ?t" by (simp add: os_path_isfile_def call_def)
  have n2: "nodes ?w2 ?t = Some (File n)" by (simp add: call_def)
  have nd: "\<not> os_path_isdir ?w2 ?f"
    using nf temp_neq_final[of vp vp] by (simp add: os_path_isdir_def os_path_exists_def call_def)
  have body: "encode_body env ?t ?f m ?w2 =
      (Inr (), (call (ExportMp3 ?f b) (call (LoadWav ?t) ?w2))
         \<lparr>nodes := (nodes ?w2)(?f \<mapsto> File k)\<rparr>)"
    using nd by (simp add: encode_body_run[OF n2 wav] rate export_mp3_def write_file_def exp)
  have nfile: "\<not> os_path_isfile w1 ?f"
    using nf isfile_exists by blast
  have "video_to_audio env vp m w = encode_audio env ?t ?f m ?w2"
    by (simp add: video_to_audio_unfold[OF ens] nfile x)
  also have "\<dots> = (Inr (Some ?f), call (Remove ?t)
      (((call (ExportMp3 ?f b) (call (LoadWav ?t) ?w2))\<lparr>nodes := (nodes ?w2)(?f \<mapsto> File k)\<rparr>)
         \<lparr>nodes := ((nodes ?w2)(?f \<mapsto> File k))(?t := None)\<rparr>))"
    using encode_audio_eq[OF t2 temp_neq_final body] by simp
  also have "\<dots> = (Inr (Some ?f),
      w1\<lparr>nodes := (nodes w1)(?f \<mapsto> File k, ?t := None),
         calls := calls w1 @ [OpenVideo vp, WriteAudio ?t, CloseVideo vp,
           LoadWav ?t, ExportMp3 ?f b, Remove ?t]\<rparr>)"
    using temp_neq_final[of vp vp] by (simp add: call_def fun_upd_twist)
  finally show ?thesis .
qed

subsection \<open>Facts about the batch loop\<close>

lemma os_mkdir_print:
  "os_mkdir p (print m w) = (fst (os_mkdir p w), print m (snd (os_mkdir p w)))"
  by (simp add: os_mkdir_def print_def os_path_exists_def os_path_isdir_def)

lemma os_makedirs_print:
  "os_makedirs p (print m w) = (fst (os_makedirs p w), print m (snd (os_makedirs p w)))"
proof -
  let ?d = "os_path_dirname p"
  obtain r1 w1 where a: "os_mkdir ?d w = (r1, w1)" by (cases "os_mkdir ?d w")
  obtain r2 w2 where b: "os_mkdir p w1 = (r2, w2)" by (cases "os_mkdir p w1")
  obtain r3 w3 where c: "os_mkdir p w = (r3, w3)" by (cases "os_mkdir p w")
  show ?thesis
    by (cases r1; cases r2; cases r3)
      (simp_all add: os_makedirs_def then_do_def os_mkdir_print a b c)
qed

lemma ensure_directories_print:
  "ensure_directories (print m w) =
     (fst (ensure_directories w), print m (snd (ensure_directories w)))"
proof -
  obtain r1 w1 where a: "os_makedirs ''output/audio'' w = (r1, w1)"
    by (cases "os_makedirs ''output/audio'' w")
  obtain r2 w2 where b: "os_makedirs ''output/analysis'' w1 = (r2, w2)"
    by (cases "os_makedirs ''output/analysis'' w1")
  show ?thesis
    by (cases r1; cases r2)
      (simp_all add: ensure_directories_def then_do_def os_makedirs_print a b Let_def)
qed

lemma returns_ensure_print [simp]:
  "returns (ensure_directories (print m w)) = returns (ensure_directories w)"
  by (simp add: ensure_directories_print returns_def)







subsection \<open>Facts about the example inputs\<close>



lemma base_name_examples:
  "base_name_of ''videos/old.mp4'' = ''old''"
  "base_name_of ''videos/a.mp4'' = ''a''"
  "base_name_of ''videos/silent.mp4'' = ''silent''"
  by (simp_all add: base_name_of_def os_path_splitext_def os_path_basename_def Let_def)

lemmas eval_defs = video_to_audio_def ensure_directories_def os_makedirs_def os_mkdir_def
  os_path_dirname_def os_path_basename_def os_path_splitext_def os_path_join_def startswith_def
  endswith_def then_do_def extract_audio_def open_video_def write_file_def close_video_def
  encode_audio_def encode_body_def load_wav_def os_path_getsize_def export_mp3_def os_remove_def
  os_path_exists_def os_path_isfile_def os_path_isdir_def call_def print_def Let_def
  process_videos_in_directory_def is_video_def video_extensions_def lower_def lower_char_def
  temp_audio_of_def final_audio_of_def base_name_of_def returns_def dirs_ready_def
  demo_env_def demo_world_def size_in_mb_exact_int





section \<open>The claims\<close>

text \<open>
  C7. For every path that is not an existing directory, \<^verbatim>\<open>process_videos_in_directory\<close>
  reports the invalid directory and returns the empty list. The world it leaves differs from
  the one it found by the printed line alone: no codec was called, nothing was created in the
  output directories, and the transcoder was not invoked.
\<close>

theorem invalid_directory:
  "\<not> os_path_isdir w directory \<Longrightarrow>
   process_videos_in_directory env directory w = (Inr [], print (InvalidDirectory directory) w)"
  by (simp add: process_videos_in_directory_def)

theorem invalid_directory_witness:
  "\<not> os_path_isdir demo_world ''videos/a.mp4'' \<and>
   fst (process_videos_in_directory demo_env ''videos/a.mp4'' demo_world) = Inr [] \<and>
   nodes (snd (process_videos_in_directory demo_env ''videos/a.mp4'' demo_world))
     = nodes demo_world \<and>
   calls (snd (process_videos_in_directory demo_env ''videos/a.mp4'' demo_world)) = [] \<and>
   stdout (snd (process_videos_in_directory demo_env ''videos/a.mp4'' demo_world))
     = [InvalidDirectory ''videos/a.mp4'']"
proof -
  have h: "\<not> os_path_isdir demo_world ''videos/a.mp4''"
    by (simp add: os_path_isdir_def demo_world_def)
  show ?thesis
    using h invalid_directory[OF h, of demo_env] by (simp add: demo_world_def)
qed

text \<open>
  C1. The claim: once the intermediate WAV file has been created, it is absent when
  \<^verbatim>\<open>video_to_audio\<close> returns, on every exit path. The code removes it in the
  \<^verbatim>\<open>finally\<close> clause of the second \<^verbatim>\<open>try\<close> only. When \<^verbatim>\<open>write_audiofile\<close>
  raises after writing part of the file, or \<^verbatim>\<open>close\<close> raises after a complete write, the
  first \<^verbatim>\<open>except\<close> clause returns \<^verbatim>\<open>None\<close> and the file stays.
\<close>

theorem intermediate_left_behind:
  "fst (video_to_audio truncating_env ''videos/a.mp4'' 15 demo_world) = Inr None \<and>
   nodes (snd (video_to_audio truncating_env ''videos/a.mp4'' 15 demo_world))
     ''output/audio/a_temp.wav'' = Some (File 4096) \<and>
   fst (video_to_audio stuck_env ''videos/a.mp4'' 15 demo_world) = Inr None \<and>
   nodes (snd (video_to_audio stuck_env ''videos/a.mp4'' 15 demo_world))
     ''output/audio/a_temp.wav'' = Some (File 1048576) \<and>
   nodes demo_world ''output/audio/a_temp.wav'' = None"
  by (simp add: eval_defs truncating_env_def stuck_env_def)







text \<open>
  C8. The claim: every failure inside \<^verbatim>\<open>video_to_audio\<close> is turned into the return value
  \<^verbatim>\<open>None\<close>, and the function's docstring says the same. The call of
  \<^verbatim>\<open>ensure_directories\<close> on line 33 stands outside both \<^verbatim>\<open>try\<close> statements. Where
  \<^verbatim>\<open>output\<close> is a regular file, \<^verbatim>\<open>os.makedirs\<close> raises, the exception leaves
  \<^verbatim>\<open>video_to_audio\<close>, and it ends \<^verbatim>\<open>process_videos_in_directory\<close> at the first video.
\<close>

theorem makedirs_failure_escapes:
  "video_to_audio demo_env ''videos/a.mp4'' 15 blocked_world
     = (Inl (NotADirectoryError ''output/audio''), blocked_world) \<and>
   fst (process_videos_in_directory demo_env ''videos'' blocked_world)
     = Inl (NotADirectoryError ''output/audio'')"
proof -
  have e: "ensure_directories blocked_world
      = (Inl (NotADirectoryError ''output/audio''), blocked_world)"
    by (simp add: ensure_directories_def os_makedirs_def os_mkdir_def os_path_dirname_def
        os_path_basename_def then_do_def os_path_exists_def os_path_isdir_def Let_def
        blocked_world_def)
  have p: "ensure_directories (print m blocked_world)
      = (Inl (NotADirectoryError ''output/audio''), print m blocked_world)" for m
    by (simp add: ensure_directories_print e)
  show ?thesis
    by (simp add: video_to_audio_raises[OF e] video_to_audio_raises[OF p]
        process_videos_in_directory_def os_path_isdir_def is_video_def video_extensions_def
        lower_def lower_char_def endswith_def then_do_def demo_env_def)
      (simp add: blocked_world_def)
qed







end
